theory Spec2Isabelle
  imports Complex_Main "HOL-Library.Multiset"
begin

section \<open>Python floats\<close>

text \<open>
  \<open>Item.value\<close> is a Python \<open>float\<close>, an IEEE 754 binary64 number. A float is
  modelled as a finite real, an infinity or NaN; the two zeros \<open>0.0\<close> and \<open>-0.0\<close>
  are both \<open>Fin 0\<close> (they compare equal, a division by either raises, and the
  text that \<open>print\<close> writes for a float is not modelled). The finite values a program
  really holds are the reals that \<open>round_double\<close> leaves unchanged.
\<close>

datatype pyfloat = Fin real | PInf | NInf | NaN

fun is_nan :: "pyfloat \<Rightarrow> bool" where
  "is_nan NaN = True"
| "is_nan _ = False"


text \<open>\<open>a < b\<close> on floats: every comparison with NaN is false.\<close>

fun flt :: "pyfloat \<Rightarrow> pyfloat \<Rightarrow> bool" where
  "flt NaN b = False"
| "flt a NaN = False"
| "flt (Fin a) (Fin b) = (a < b)"
| "flt (Fin a) PInf = True"
| "flt (Fin a) NInf = False"
| "flt PInf b = False"
| "flt NInf NInf = False"
| "flt NInf b = True"

text \<open>\<open>x == 0\<close> and \<open>x < 0\<close>.\<close>

definition is_zero :: "pyfloat \<Rightarrow> bool" where
  "is_zero x = (x = Fin 0)"

definition is_negative :: "pyfloat \<Rightarrow> bool" where
  "is_negative x = flt x (Fin 0)"

subsection \<open>Rounding to the nearest double\<close>

text \<open>
  Round to nearest, ties to even: the magnitude is scaled by the unit in the last
  place of its binade (53 significant bits, no exponent below that of the subnormal
  numbers), rounded to an integer and scaled back. A magnitude that rounds to
  \<open>2 ^ 1024\<close> or more has overflowed.
\<close>

definition round_even :: "real \<Rightarrow> int" where
  "round_even y =
     (let f = \<lfloor>y\<rfloor>; d = y - of_int f
      in if d < 1 / 2 then f else if 1 / 2 < d then f + 1 else if even f then f else f + 1)"

definition ulp_exponent :: "real \<Rightarrow> int" where
  "ulp_exponent a = max \<lfloor>log 2 a\<rfloor> (- 1022) - 52"

definition round_mag :: "real \<Rightarrow> real" where
  "round_mag a =
     (let u = 2 powr of_int (ulp_exponent a) in of_int (round_even (a / u)) * u)"

definition double_limit :: real where
  "double_limit = 2 ^ 1024"

definition round_double :: "real \<Rightarrow> pyfloat" where
  "round_double x =
     (if x = 0 then Fin 0
      else let r = round_mag \<bar>x\<bar>
           in if double_limit \<le> r then (if 0 < x then PInf else NInf)
              else Fin (if 0 < x then r else - r))"

text \<open>
  The arithmetic below takes its rounding as a parameter. The program runs with
  \<open>round_double\<close>; \<open>exact_arith\<close> rounds nothing and gives the same program text over
  the real numbers.
\<close>

type_synonym rounding = "real \<Rightarrow> pyfloat"


subsection \<open>The float operations the program uses\<close>

fun fneg :: "pyfloat \<Rightarrow> pyfloat" where
  "fneg (Fin a) = Fin (- a)"
| "fneg PInf = NInf"
| "fneg NInf = PInf"
| "fneg NaN = NaN"

text \<open>\<open>a + b\<close>: opposite infinities give NaN.\<close>

fun fadd :: "rounding \<Rightarrow> pyfloat \<Rightarrow> pyfloat \<Rightarrow> pyfloat" where
  "fadd rnd NaN b = NaN"
| "fadd rnd a NaN = NaN"
| "fadd rnd (Fin a) (Fin b) = rnd (a + b)"
| "fadd rnd (Fin a) PInf = PInf"
| "fadd rnd (Fin a) NInf = NInf"
| "fadd rnd PInf NInf = NaN"
| "fadd rnd PInf b = PInf"
| "fadd rnd NInf PInf = NaN"
| "fadd rnd NInf b = NInf"

definition fsub :: "rounding \<Rightarrow> pyfloat \<Rightarrow> pyfloat \<Rightarrow> pyfloat" where
  "fsub rnd a b = fadd rnd a (fneg b)"

text \<open>The quotient \<open>a / b\<close> for a divisor that is not zero.\<close>

fun fdiv :: "rounding \<Rightarrow> pyfloat \<Rightarrow> pyfloat \<Rightarrow> pyfloat" where
  "fdiv rnd NaN b = NaN"
| "fdiv rnd a NaN = NaN"
| "fdiv rnd (Fin a) (Fin b) = rnd (a / b)"
| "fdiv rnd (Fin a) PInf = Fin 0"
| "fdiv rnd (Fin a) NInf = Fin 0"
| "fdiv rnd PInf (Fin b) = (if 0 < b then PInf else NInf)"
| "fdiv rnd NInf (Fin b) = (if 0 < b then NInf else PInf)"
| "fdiv rnd PInf b = NaN"
| "fdiv rnd NInf b = NaN"

text \<open>The exceptions the arithmetic of the program can raise.\<close>

datatype py_error = ZeroDivisionError | ValueError | OverflowError

text \<open>Sequencing of computations that may raise: the first exception wins.\<close>

definition then_do :: "py_error + 'a \<Rightarrow> ('a \<Rightarrow> py_error + 'b) \<Rightarrow> py_error + 'b" where
  "then_do r f = (case r of Inl e \<Rightarrow> Inl e | Inr v \<Rightarrow> f v)"

text \<open>\<open>a / b\<close> raises \<open>ZeroDivisionError\<close> when the divisor is zero, whatever \<open>a\<close> is.\<close>

definition truediv :: "rounding \<Rightarrow> pyfloat \<Rightarrow> pyfloat \<Rightarrow> py_error + pyfloat" where
  "truediv rnd a b = (if is_zero b then Inl ZeroDivisionError else Inr (fdiv rnd a b))"

text \<open>
  Converting an \<open>int\<close> operand to a float raises \<open>OverflowError\<close> when the integer is
  beyond the range of the doubles.
\<close>

definition float_of_int :: "rounding \<Rightarrow> int \<Rightarrow> py_error + pyfloat" where
  "float_of_int rnd n =
     (case rnd (of_int n) of
        PInf \<Rightarrow> Inl OverflowError
      | NInf \<Rightarrow> Inl OverflowError
      | c \<Rightarrow> Inr c)"

text \<open>\<open>a / n\<close> for an \<open>int\<close> \<open>n\<close>.\<close>

definition truediv_int :: "rounding \<Rightarrow> pyfloat \<Rightarrow> int \<Rightarrow> py_error + pyfloat" where
  "truediv_int rnd a n = then_do (float_of_int rnd n) (\<lambda>c. truediv rnd a c)"

text \<open>
  \<open>x ** 2\<close>: the square, taken as correctly rounded; a finite \<open>x\<close> whose square is
  beyond the range of the doubles raises \<open>OverflowError\<close>, an infinite \<open>x\<close> gives
  \<open>inf\<close> and NaN gives NaN.
\<close>

fun square :: "rounding \<Rightarrow> pyfloat \<Rightarrow> py_error + pyfloat" where
  "square rnd (Fin a) =
     (case rnd (a * a) of
        PInf \<Rightarrow> Inl OverflowError
      | NInf \<Rightarrow> Inl OverflowError
      | q \<Rightarrow> Inr q)"
| "square rnd PInf = Inr PInf"
| "square rnd NInf = Inr PInf"
| "square rnd NaN = Inr NaN"

text \<open>\<open>math.sqrt(x)\<close> raises \<open>ValueError\<close> on a negative argument; NaN gives NaN.\<close>

fun math_sqrt :: "rounding \<Rightarrow> pyfloat \<Rightarrow> py_error + pyfloat" where
  "math_sqrt rnd (Fin a) = (if a < 0 then Inl ValueError else Inr (rnd (sqrt a)))"
| "math_sqrt rnd PInf = Inr PInf"
| "math_sqrt rnd NInf = Inl ValueError"
| "math_sqrt rnd NaN = Inr NaN"

text \<open>
  \<open>sum(xs)\<close> starts from 0 and adds the elements from left to right, each addition
  rounded, as CPython up to 3.11 computes it. (From CPython 3.12 on \<open>sum\<close> also
  carries a correction term for the rounding errors of finite floats; overflow to an
  infinity is the same in both.)
\<close>

definition py_sum :: "rounding \<Rightarrow> pyfloat list \<Rightarrow> pyfloat" where
  "py_sum rnd xs = foldl (fadd rnd) (Fin 0) xs"

subsection \<open>\<open>sorted\<close> and slices\<close>

text \<open>
  \<open>sorted(xs, key=k, reverse=r)\<close> builds a new list and compares keys with \<open><\<close>
  only. The sort first looks for a run: a list in which no key is less than the key
  before it is one ascending run and is returned as it is. Any other list is
  rearranged by a stable merge sort; when no key is NaN every stable sort returns the
  same list, which is computed here by insertion. (For keys with NaN that are not in
  order, what the merge sort returns depends on its merging strategy; the insertion
  result is then only one possible outcome, and no statement below is about that
  case.) With \<open>reverse=True\<close> the list is reversed, sorted in ascending order and
  reversed again, which is how ties keep their input order.
\<close>

fun in_order :: "pyfloat list \<Rightarrow> bool" where
  "in_order (a # b # rest) = (\<not> flt b a \<and> in_order (b # rest))"
| "in_order ks = True"

fun insert_key :: "('a \<Rightarrow> pyfloat) \<Rightarrow> 'a \<Rightarrow> 'a list \<Rightarrow> 'a list" where
  "insert_key k x [] = [x]"
| "insert_key k x (y # ys) = (if flt (k y) (k x) then y # insert_key k x ys else x # y # ys)"

fun insertion_sort :: "('a \<Rightarrow> pyfloat) \<Rightarrow> 'a list \<Rightarrow> 'a list" where
  "insertion_sort k [] = []"
| "insertion_sort k (x # xs) = insert_key k x (insertion_sort k xs)"

definition sort_ascending :: "('a \<Rightarrow> pyfloat) \<Rightarrow> 'a list \<Rightarrow> 'a list" where
  "sort_ascending k xs = (if in_order (map k xs) then xs else insertion_sort k xs)"

definition py_sorted :: "('a \<Rightarrow> pyfloat) \<Rightarrow> bool \<Rightarrow> 'a list \<Rightarrow> 'a list" where
  "py_sorted k r xs = (if r then rev (sort_ascending k (rev xs)) else sort_ascending k xs)"

text \<open>
  The slice \<open>xs[:n]\<close>: a negative bound counts from the end, and every bound is
  clipped to the list.
\<close>

definition slice_upto :: "'a list \<Rightarrow> int \<Rightarrow> 'a list" where
  "slice_upto xs n = (if 0 \<le> n then take (nat n) xs else take (nat (int (length xs) + n)) xs)"

section \<open>The data model and the utility functions of \<open>LTIK.py\<close>\<close>

text \<open>
  The dataclass \<open>Item\<close> with the fields \<open>id\<close>, \<open>name\<close> and \<open>value\<close>. Python's \<open>int\<close>
  is \<open>int\<close>. The field names carry the prefix \<open>item_\<close> because \<open>id\<close> is a constant
  of HOL.
\<close>

record Item =
  item_id :: int
  item_name :: string
  item_value :: pyfloat

text \<open>The list comprehension of \<open>normalize_values\<close>: a new \<open>Item\<close> for every element.\<close>

fun scaled_items :: "rounding \<Rightarrow> pyfloat \<Rightarrow> Item list \<Rightarrow> py_error + Item list" where
  "scaled_items rnd tot [] = Inr []"
| "scaled_items rnd tot (i # rest) =
     then_do (truediv rnd (item_value i) tot) (\<lambda>v.
     then_do (scaled_items rnd tot rest) (\<lambda>scaled.
       Inr (\<lparr>item_id = item_id i, item_name = item_name i, item_value = v\<rparr> # scaled)))"

definition normalize_values :: "rounding \<Rightarrow> Item list \<Rightarrow> py_error + Item list" where
  "normalize_values rnd items =
     (let tot = py_sum rnd (map item_value items)
      in if is_zero tot then Inr items else scaled_items rnd tot items)"

definition top_n_by_value :: "Item list \<Rightarrow> int \<Rightarrow> Item list" where
  "top_n_by_value items n =
     (if n \<le> 0 then []
      else let sorted_items = py_sorted item_value True items
           in slice_upto sorted_items n)"

text \<open>The dictionary returned by \<open>stats\<close>; \<open>None\<close> is the absent value.\<close>

record stats_dict =
  st_count :: int
  st_sum :: pyfloat
  st_mean :: "pyfloat option"
  st_stddev :: "pyfloat option"

text \<open>The generator \<open>(v - mean) ** 2 for v in values\<close>; the first square that raises ends it.\<close>

fun squared_deviations :: "rounding \<Rightarrow> pyfloat \<Rightarrow> pyfloat list \<Rightarrow> py_error + pyfloat list" where
  "squared_deviations rnd mean [] = Inr []"
| "squared_deviations rnd mean (v # vs) =
     then_do (square rnd (fsub rnd v mean)) (\<lambda>q.
     then_do (squared_deviations rnd mean vs) (\<lambda>qs. Inr (q # qs)))"

definition stats :: "rounding \<Rightarrow> Item list \<Rightarrow> py_error + stats_dict" where
  "stats rnd items =
     (let cnt = int (length items)
      in if cnt = 0
         then Inr \<lparr>st_count = 0, st_sum = Fin 0, st_mean = None, st_stddev = None\<rparr>
         else
           (let vals = map item_value items;
                s = py_sum rnd vals
            in then_do (truediv_int rnd s cnt) (\<lambda>mean.
               then_do (squared_deviations rnd mean vals) (\<lambda>squares.
               then_do (truediv_int rnd (py_sum rnd squares) cnt) (\<lambda>variance.
               then_do (math_sqrt rnd variance) (\<lambda>stddev.
                 Inr \<lparr>st_count = cnt, st_sum = s, st_mean = Some mean, st_stddev = Some stddev\<rparr>))))))"

section \<open>The command line driver\<close>

definition build_example_items :: "Item list" where
  "build_example_items =
     [\<lparr>item_id = 1, item_name = ''alpha'', item_value = Fin 10\<rparr>,
      \<lparr>item_id = 2, item_name = ''beta'', item_value = Fin 5\<rparr>,
      \<lparr>item_id = 3, item_name = ''gamma'', item_value = Fin 0\<rparr>,
      \<lparr>item_id = 4, item_name = ''delta'', item_value = Fin (5 / 2)\<rparr>,
      \<lparr>item_id = 5, item_name = ''epsilon'', item_value = Fin (15 / 2)\<rparr>]"

text \<open>
  The parsed options (\<open>argparse\<close> itself is the library's work and is not modelled):
  \<open>--top\<close>, \<open>--normalize\<close> and \<open>--json\<close>.
\<close>

record args =
  args_top :: int
  args_normalize :: bool
  args_json :: bool

text \<open>The values that can sit in a dictionary or be interpolated into an f-string.\<close>

datatype pyval = PNone | PInt int | PFloat pyfloat | PStr string

definition as_dict :: "Item \<Rightarrow> (string \<times> pyval) list" where
  "as_dict i =
     [(''id'', PInt (item_id i)), (''name'', PStr (item_name i)), (''value'', PFloat (item_value i))]"

record output_dict =
  out_top :: "(string \<times> pyval) list list"
  out_stats :: stats_dict

text \<open>
  An f-string is kept as its sequence of literal pieces and interpolated values: the
  decimal text Python chooses for a float is not modelled. What \<open>print\<close> wrote is a
  list with one entry per call; the text of \<open>json.dumps\<close> is kept as the dictionary
  it was given. The records written by \<open>logging\<close> are not part of the model.
\<close>

datatype piece = Lit string | Val pyval

datatype printed = Line "piece list" | JsonDump output_dict

text \<open>The dash of the statistics line is U+2014, here in its UTF-8 bytes.\<close>

definition em_dash :: string where
  "em_dash = [CHR 0xE2, CHR 0x80, CHR 0x94]"

text \<open>The f-string printed for every top item.\<close>

definition item_line :: "Item \<Rightarrow> piece list" where
  "item_line it =
     [Lit '' - ('', Val (PInt (item_id it)), Lit '') '', Val (PStr (item_name it)),
      Lit '': '', Val (PFloat (item_value it))]"

definition float_or_none :: "pyfloat option \<Rightarrow> pyval" where
  "float_or_none v = (case v of None \<Rightarrow> PNone | Some x \<Rightarrow> PFloat x)"

text \<open>The f-string printed for the statistics.\<close>

definition stats_line :: "stats_dict \<Rightarrow> piece list" where
  "stats_line st =
     [Lit (''Stats '' @ em_dash @ '' count: ''), Val (PInt (st_count st)),
      Lit '', sum: '', Val (PFloat (st_sum st)),
      Lit '', mean: '', Val (float_or_none (st_mean st)),
      Lit '', stddev: '', Val (float_or_none (st_stddev st))]"

text \<open>\<open>main\<close> on parsed options: what it printed and the exit status it returns.\<close>

definition main :: "rounding \<Rightarrow> args \<Rightarrow> py_error + (printed list \<times> int)" where
  "main rnd a =
     then_do (if args_normalize a then normalize_values rnd build_example_items
              else Inr build_example_items) (\<lambda>items.
     let top = top_n_by_value items (args_top a)
     in then_do (stats rnd items) (\<lambda>st.
        let output = \<lparr>out_top = map as_dict top, out_stats = st\<rparr>
        in Inr (if args_json a then [JsonDump output]
                else [Line [Lit ''Top items:'']] @ map (\<lambda>it. Line (item_line it)) top
                     @ [Line [], Line (stats_line (out_stats output))],
                0)))"

text \<open>What a run printed; nothing when it raised.\<close>

definition printed_of :: "py_error + (printed list \<times> int) \<Rightarrow> printed list" where
  "printed_of r = (case r of Inl e \<Rightarrow> [] | Inr (out, status) \<Rightarrow> out)"

section \<open>\<open>top_n_by_value\<close> on a store of objects\<close>

text \<open>
  Python lists and \<open>Item\<close> instances are mutable objects reached through references.
  To say what a call leaves alone, the same function is written once more over an
  explicit store: \<open>sorted\<close> and the slice each allocate a new list object, and the
  elements of a list are references to \<open>Item\<close> objects. A result of \<open>None\<close> stands
  for a dangling reference, which no Python state has.
\<close>

type_synonym ref = nat

record store =
  items_at :: "ref \<rightharpoonup> Item"
  lists_at :: "ref \<rightharpoonup> ref list"
  next_ref :: ref

definition new_list :: "store \<Rightarrow> ref list \<Rightarrow> store \<times> ref" where
  "new_list s refs =
     (s\<lparr>lists_at := (lists_at s)(next_ref s \<mapsto> refs), next_ref := Suc (next_ref s)\<rparr>,
      next_ref s)"

fun load_items :: "store \<Rightarrow> ref list \<Rightarrow> (ref \<times> Item) list option" where
  "load_items s [] = Some []"
| "load_items s (r # rs) =
     (case items_at s r of
        None \<Rightarrow> None
      | Some i \<Rightarrow> (case load_items s rs of None \<Rightarrow> None | Some ps \<Rightarrow> Some ((r, i) # ps)))"

definition sorted_st :: "store \<Rightarrow> ref \<Rightarrow> (store \<times> ref) option" where
  "sorted_st s l =
     (case lists_at s l of
        None \<Rightarrow> None
      | Some refs \<Rightarrow>
          (case load_items s refs of
             None \<Rightarrow> None
           | Some ps \<Rightarrow> Some (new_list s (map fst (py_sorted (\<lambda>p. item_value (snd p)) True ps)))))"

definition slice_upto_st :: "store \<Rightarrow> ref \<Rightarrow> int \<Rightarrow> (store \<times> ref) option" where
  "slice_upto_st s l n =
     (case lists_at s l of
        None \<Rightarrow> None
      | Some refs \<Rightarrow> Some (new_list s (slice_upto refs n)))"

definition top_n_by_value_st :: "store \<Rightarrow> ref \<Rightarrow> int \<Rightarrow> (store \<times> ref) option" where
  "top_n_by_value_st s items n =
     (if n \<le> 0 then Some (new_list s [])
      else case sorted_st s items of
             None \<Rightarrow> None
           | Some (s1, sorted_items) \<Rightarrow> slice_upto_st s1 sorted_items n)"

text \<open>What a list object holds, read through its references.\<close>

definition list_value :: "store \<Rightarrow> ref \<Rightarrow> Item list option" where
  "list_value s l =
     (case lists_at s l of
        None \<Rightarrow> None
      | Some refs \<Rightarrow> map_option (map snd) (load_items s refs))"

section \<open>Reference notions and sample inputs\<close>



fun sqrt_value :: "rounding \<Rightarrow> pyfloat \<Rightarrow> pyfloat" where
  "sqrt_value rnd (Fin a) = (if a < 0 then NaN else rnd (sqrt a))"
| "sqrt_value rnd PInf = PInf"
| "sqrt_value rnd NInf = NaN"
| "sqrt_value rnd NaN = NaN"



text \<open>Values whose squares and sums stay far inside the range of the doubles.\<close>

definition small_values :: "Item list \<Rightarrow> bool" where
  "small_values items =
     (length items \<le> 100 \<and>
      list_all (\<lambda>i. case item_value i of Fin a \<Rightarrow> \<bar>a\<bar> \<le> 2 ^ 400 | _ \<Rightarrow> False) items)"

text \<open>The line of a top item as the specification words it, with no leading blank.\<close>

definition spec_item_line :: "Item \<Rightarrow> piece list" where
  "spec_item_line it =
     [Lit ''- ('', Val (PInt (item_id it)), Lit '') '', Val (PStr (item_name it)),
      Lit '': '', Val (PFloat (item_value it))]"

text \<open>A list with a tie.\<close>

definition tie_items :: "Item list" where
  "tie_items =
     [\<lparr>item_id = 1, item_name = ''a'', item_value = Fin 1\<rparr>,
      \<lparr>item_id = 2, item_name = ''b'', item_value = Fin 2\<rparr>,
      \<lparr>item_id = 3, item_name = ''c'', item_value = Fin 2\<rparr>,
      \<lparr>item_id = 4, item_name = ''d'', item_value = Fin 0\<rparr>]"

text \<open>The values \<open>1.0, nan, 2.0\<close>.\<close>

definition nan_items :: "Item list" where
  "nan_items =
     [\<lparr>item_id = 1, item_name = ''a'', item_value = Fin 1\<rparr>,
      \<lparr>item_id = 2, item_name = ''b'', item_value = NaN\<rparr>,
      \<lparr>item_id = 3, item_name = ''c'', item_value = Fin 2\<rparr>]"






definition default_args :: args where
  "default_args = \<lparr>args_top = 3, args_normalize = False, args_json = False\<rparr>"

text \<open>A store holding the list \<open>tie_items\<close> at reference 4, its items at 0 to 3.\<close>

definition tie_store :: store where
  "tie_store =
     \<lparr>items_at = [0 \<mapsto> tie_items ! 0, 1 \<mapsto> tie_items ! 1, 2 \<mapsto> tie_items ! 2, 3 \<mapsto> tie_items ! 3],
      lists_at = [4 \<mapsto> [0, 1, 2, 3]],
      next_ref = 5\<rparr>"

section \<open>Facts about rounding\<close>

lemma round_even_of_int: "round_even (of_int n) = n"
  by (simp add: round_even_def)

lemma round_even_lower: "of_int a \<le> y \<Longrightarrow> a \<le> round_even y"
proof -
  assume "of_int a \<le> y"
  then have "a \<le> \<lfloor>y\<rfloor>" by (simp add: le_floor_iff)
  then show ?thesis by (auto simp add: round_even_def Let_def)
qed

lemma round_even_upper: "y \<le> of_int b \<Longrightarrow> round_even y \<le> b"
proof -
  assume h: "y \<le> of_int b"
  show ?thesis
  proof (cases "y = of_int b")
    case True
    then show ?thesis by (simp add: round_even_of_int)
  next
    case False
    with h have "y < of_int b" by simp
    then have "\<lfloor>y\<rfloor> < b" by (simp add: floor_less_iff)
    then show ?thesis by (auto simp add: round_even_def Let_def)
  qed
qed

lemma two_powr_int: "0 \<le> i \<Longrightarrow> (2::real) powr of_int i = of_int (2 ^ nat i)"
proof -
  assume "0 \<le> i"
  then have "(2::real) powr of_int i = 2 powr real (nat i)" by simp
  also have "\<dots> = 2 ^ nat i" by (simp add: powr_realpow)
  finally show ?thesis by simp
qed

lemma floor_log_bounds:
  assumes "0 < a"
  shows "2 powr of_int \<lfloor>log 2 a\<rfloor> \<le> a" and "a < 2 powr (of_int \<lfloor>log 2 a\<rfloor> + 1)"
  using assms floor_log_eq_powr_iff [of a 2 "\<lfloor>log 2 a\<rfloor>"] by simp_all

lemma one_less_two: "(1::real) < 2"
  by simp

lemma round_mag_nonneg: "0 < a \<Longrightarrow> 0 \<le> round_mag a"
proof -
  assume a: "0 < a"
  let ?u = "(2::real) powr of_int (ulp_exponent a)"
  have u: "0 < ?u" by simp
  with a have "of_int 0 \<le> a / ?u" by simp
  then have "0 \<le> round_even (a / ?u)" by (rule round_even_lower)
  with u show ?thesis by (simp add: round_mag_def Let_def)
qed

lemma round_mag_upper:
  assumes a: "0 < a" and le: "a \<le> 2 ^ k"
  shows "round_mag a \<le> 2 ^ k"
proof -
  let ?q = "ulp_exponent a"
  let ?u = "(2::real) powr of_int ?q"
  have u: "0 < ?u" by simp
  have "a < 2 powr (of_int (int k) + 1)"
  proof -
    have "(2::real) ^ k < 2 ^ (k + 1)" by simp
    also have "\<dots> = 2 powr real (k + 1)" by (rule powr_realpow [symmetric]) simp
    finally have "(2::real) ^ k < 2 powr real (k + 1)" .
    moreover have "real (k + 1) = of_int (int k) + 1" by simp
    ultimately show ?thesis using le by (simp add: add.commute)
  qed
  with floor_log_bounds(1) [OF a]
  have "(2::real) powr of_int \<lfloor>log 2 a\<rfloor> < 2 powr (of_int (int k) + 1)"
    by (rule le_less_trans)
  then have "real_of_int \<lfloor>log 2 a\<rfloor> < of_int (int k) + 1"
    by (simp only: powr_less_cancel_iff [OF one_less_two])
  then have "\<lfloor>log 2 a\<rfloor> \<le> int k" by linarith
  then have q: "?q \<le> int k" by (simp add: ulp_exponent_def)
  define d where "d = int k - ?q"
  then have d: "0 \<le> d" using q by simp
  have "(2::real) ^ k = 2 powr of_int (int k)" by (simp add: powr_realpow)
  also have "\<dots> = 2 powr of_int d * ?u"
    by (simp add: d_def powr_add [symmetric])
  finally have split: "(2::real) ^ k = of_int (2 ^ nat d) * ?u"
    using d by (simp add: two_powr_int)
  then have "a / ?u \<le> of_int (2 ^ nat d)"
    using le u by (simp add: pos_divide_le_eq)
  then have "round_even (a / ?u) \<le> 2 ^ nat d" by (rule round_even_upper)
  then have "of_int (round_even (a / ?u)) * ?u \<le> of_int (2 ^ nat d) * ?u"
    using u by (simp add: mult_right_mono)
  with split show ?thesis by (simp add: round_mag_def Let_def)
qed

lemma round_mag_lower:
  assumes ge: "2 ^ k \<le> a"
  shows "2 ^ k \<le> round_mag a"
proof -
  have "(0::real) < 2 ^ k" by simp
  with ge have a: "0 < a" by linarith
  let ?E = "\<lfloor>log 2 a\<rfloor>"
  let ?q = "ulp_exponent a"
  let ?u = "(2::real) powr of_int ?q"
  have u: "0 < ?u" by simp
  have "(2::real) powr of_int (int k) \<le> a" using ge by (simp add: powr_realpow)
  then have "of_int (int k) \<le> log 2 a" using a by (simp add: le_log_iff)
  then have E: "int k \<le> ?E" by (simp add: le_floor_iff)
  then have q: "?q = ?E - 52" by (simp add: ulp_exponent_def)
  have "real_of_int ?E = of_int 52 + of_int ?q" by (simp add: q)
  then have "(2::real) powr of_int ?E = 2 powr (of_int 52 + of_int ?q)" by simp
  also have "\<dots> = 2 powr of_int 52 * ?u" by (rule powr_add)
  also have "(2::real) powr of_int 52 = of_int (2 ^ nat 52)" by (rule two_powr_int) simp
  finally have split: "(2::real) powr of_int ?E = of_int (2 ^ 52) * ?u" by simp
  have "2 powr of_int ?E \<le> a" using floor_log_bounds(1) [OF a] .
  then have "of_int (2 ^ 52) \<le> a / ?u"
    using split u by (simp add: pos_le_divide_eq)
  then have "2 ^ 52 \<le> round_even (a / ?u)" by (rule round_even_lower)
  then have "of_int (2 ^ 52) * ?u \<le> of_int (round_even (a / ?u)) * ?u"
    using u by (simp add: mult_right_mono)
  then have "2 powr of_int ?E \<le> round_mag a"
    using split by (simp add: round_mag_def Let_def)
  moreover have "(2::real) powr of_int (int k) \<le> 2 powr of_int ?E"
    using E by simp
  ultimately show ?thesis by (simp add: powr_realpow)
qed

lemma round_mag_exact:
  assumes m: "0 < m" "m < 2 ^ 53" and e: "- 1074 \<le> e"
  shows "round_mag (of_int m * 2 powr of_int e) = of_int m * 2 powr of_int e"
proof -
  let ?a = "real_of_int m * 2 powr of_int e"
  have a: "0 < ?a" using m by simp
  let ?E = "\<lfloor>log 2 ?a\<rfloor>"
  let ?q = "ulp_exponent ?a"
  let ?u = "(2::real) powr of_int ?q"
  have u: "0 < ?u" by simp
  have "real_of_int m < of_int (2 ^ 53)" using m(2) by (simp only: of_int_less_iff)
  then have "?a < of_int (2 ^ nat 53) * 2 powr of_int e"
    by (simp add: mult_strict_right_mono)
  also have "real_of_int (2 ^ nat 53) = 2 powr of_int 53" by (rule two_powr_int [symmetric]) simp
  also have "(2::real) powr of_int 53 * 2 powr of_int e = 2 powr (of_int 53 + of_int e)"
    by (rule powr_add [symmetric])
  finally have "?a < 2 powr (of_int 53 + of_int e)" .
  with floor_log_bounds(1) [OF a]
  have "(2::real) powr of_int ?E < 2 powr (of_int 53 + of_int e)" by (rule le_less_trans)
  then have "real_of_int ?E < of_int 53 + of_int e" by simp
  then have "?E - 52 \<le> e" by linarith
  with e have q: "?q \<le> e" by (simp add: ulp_exponent_def)
  define d where "d = e - ?q"
  then have d: "0 \<le> d" using q by simp
  have "real_of_int e = of_int d + of_int ?q" by (simp add: d_def)
  then have "(2::real) powr of_int e = 2 powr (of_int d + of_int ?q)" by simp
  also have "\<dots> = 2 powr of_int d * ?u" by (rule powr_add)
  also have "(2::real) powr of_int d = of_int (2 ^ nat d)" using d by (rule two_powr_int)
  finally have eq: "?a = of_int (m * 2 ^ nat d) * ?u" by simp
  then have "?a / ?u = of_int (m * 2 ^ nat d) * ?u / ?u"
    by (rule arg_cong [where f = "\<lambda>z. z / ?u"])
  also have "\<dots> = of_int (m * 2 ^ nat d)" using u by simp
  finally have quot: "?a / ?u = of_int (m * 2 ^ nat d)" .
  have "round_mag ?a = of_int (round_even (?a / ?u)) * ?u"
    by (simp add: round_mag_def Let_def)
  also have "\<dots> = of_int (m * 2 ^ nat d) * ?u"
    by (simp only: quot round_even_of_int)
  also have "\<dots> = ?a" by (rule eq [symmetric])
  finally show ?thesis .
qed

lemma round_double_zero: "round_double 0 = Fin 0"
  by (simp add: round_double_def)

lemma double_limit_pos: "0 < double_limit"
  unfolding double_limit_def by (rule zero_less_power) simp

lemma round_double_overflow:
  "double_limit \<le> x \<Longrightarrow> round_double x = PInf"
  "x \<le> - double_limit \<Longrightarrow> round_double x = NInf"
proof -
  assume h: "double_limit \<le> x"
  with double_limit_pos have pos: "0 < x" by (rule less_le_trans)
  from h pos have "2 ^ 1024 \<le> \<bar>x\<bar>" unfolding double_limit_def by linarith
  then have "2 ^ 1024 \<le> round_mag \<bar>x\<bar>" by (rule round_mag_lower)
  then have "double_limit \<le> round_mag \<bar>x\<bar>" unfolding double_limit_def .
  with pos show "round_double x = PInf" by (simp add: round_double_def Let_def)
next
  assume h: "x \<le> - double_limit"
  with double_limit_pos have neg: "x < 0" by linarith
  from h neg have "2 ^ 1024 \<le> \<bar>x\<bar>" unfolding double_limit_def by linarith
  then have "2 ^ 1024 \<le> round_mag \<bar>x\<bar>" by (rule round_mag_lower)
  then have "double_limit \<le> round_mag \<bar>x\<bar>" unfolding double_limit_def .
  with neg show "round_double x = NInf" by (simp add: round_double_def Let_def)
qed

lemma round_double_pos:
  "0 < x \<Longrightarrow> round_double x = (if double_limit \<le> round_mag x then PInf else Fin (round_mag x))"
  by (simp add: round_double_def Let_def)

lemma round_double_neg:
  "x < 0 \<Longrightarrow> round_double x = (if double_limit \<le> round_mag (- x) then NInf else Fin (- round_mag (- x)))"
  by (simp add: round_double_def Let_def)

lemma round_double_bound:
  assumes le: "\<bar>x\<bar> \<le> 2 ^ k" and k: "k < 1024"
  shows "\<exists>r. round_double x = Fin r \<and> \<bar>r\<bar> \<le> 2 ^ k"
proof -
  have lim: "(2::real) ^ k < double_limit"
    unfolding double_limit_def using k by (intro power_strict_increasing) simp_all
  consider "x = 0" | "0 < x" | "x < 0" by linarith
  then show ?thesis
  proof cases
    case 1
    then show ?thesis by (simp add: round_double_zero)
  next
    case 2
    with le have "x \<le> 2 ^ k" by simp
    with 2 have up: "round_mag x \<le> 2 ^ k" by (rule round_mag_upper)
    with lim have "\<not> double_limit \<le> round_mag x" by linarith
    moreover have "0 \<le> round_mag x" using 2 by (rule round_mag_nonneg)
    ultimately show ?thesis using 2 up by (simp add: round_double_pos)
  next
    case 3
    then have p: "0 < - x" by simp
    from le 3 have "- x \<le> 2 ^ k" by simp
    with p have up: "round_mag (- x) \<le> 2 ^ k" by (rule round_mag_upper)
    with lim have "\<not> double_limit \<le> round_mag (- x)" by linarith
    moreover have "0 \<le> round_mag (- x)" using p by (rule round_mag_nonneg)
    ultimately show ?thesis using 3 up by (simp add: round_double_neg)
  qed
qed

lemma round_double_nonneg:
  assumes "0 \<le> x"
  shows "round_double x = PInf \<or> (\<exists>r. round_double x = Fin r \<and> 0 \<le> r)"
proof (cases "x = 0")
  case True
  then show ?thesis by (simp add: round_double_zero)
next
  case False
  with assms have p: "0 < x" by simp
  then have "0 \<le> round_mag x" by (rule round_mag_nonneg)
  with p show ?thesis by (simp add: round_double_pos)
qed

lemma round_double_ge_one:
  assumes "1 \<le> x"
  shows "round_double x = PInf \<or> (\<exists>r. round_double x = Fin r \<and> 1 \<le> r)"
proof -
  from assms have p: "0 < x" by simp
  from assms have "2 ^ 0 \<le> x" by simp
  then have "2 ^ 0 \<le> round_mag x" by (rule round_mag_lower)
  then have "1 \<le> round_mag x" by simp
  with p show ?thesis by (simp add: round_double_pos)
qed

lemma round_double_exact:
  assumes m: "m \<noteq> 0" "\<bar>m\<bar> < 2 ^ 53" and e: "- 1074 \<le> e"
      and lim: "\<bar>real_of_int m * 2 powr of_int e\<bar> < double_limit"
  shows "round_double (of_int m * 2 powr of_int e) = Fin (of_int m * 2 powr of_int e)"
proof (cases "0 < m")
  case True
  let ?x = "real_of_int m * 2 powr of_int e"
  have p: "0 < ?x" using True by simp
  have "round_mag ?x = ?x" using True m(2) e by (intro round_mag_exact) simp_all
  moreover from lim p have "\<not> double_limit \<le> ?x" by simp
  ultimately show ?thesis using p by (simp only: round_double_pos if_False)
next
  case False
  with m(1) have neg: "m < 0" by simp
  let ?x = "real_of_int m * 2 powr of_int e"
  have n: "?x < 0" using neg by (simp add: mult_neg_pos)
  have eq: "- ?x = of_int (- m) * 2 powr of_int e" by simp
  have "round_mag (of_int (- m) * 2 powr of_int e) = of_int (- m) * 2 powr of_int e"
    using neg m(2) e by (intro round_mag_exact) simp_all
  then have r: "round_mag (- ?x) = - ?x" by (simp only: eq)
  moreover from lim n have "\<not> double_limit \<le> - ?x" by simp
  ultimately show ?thesis using n by (simp only: round_double_neg if_False minus_minus)
qed

lemma round_double_int:
  assumes "\<bar>m\<bar> < 2 ^ 53"
  shows "round_double (of_int m) = Fin (of_int m)"
proof (cases "m = 0")
  case True
  then show ?thesis by (simp add: round_double_zero)
next
  case False
  have "\<bar>real_of_int m\<bar> < of_int (2 ^ 53)" using assms by (simp only: of_int_abs [symmetric] of_int_less_iff)
  also have "real_of_int (2 ^ 53) = 2 ^ 53" by simp
  also have "(2::real) ^ 53 < double_limit"
    unfolding double_limit_def by (intro power_strict_increasing) simp_all
  finally have "\<bar>real_of_int m * 2 powr of_int 0\<bar> < double_limit" by simp
  with False assms have "round_double (of_int m * 2 powr of_int 0) = Fin (of_int m * 2 powr of_int 0)"
    by (intro round_double_exact) simp_all
  then show ?thesis by simp
qed


lemma round_double_dyadic:
  assumes m: "\<bar>m\<bar> < 2 ^ 53" and j: "j \<le> 1074"
  shows "round_double (of_int m / 2 ^ j) = Fin (of_int m / 2 ^ j)"
proof (cases "m = 0")
  case True
  then show ?thesis by (simp add: round_double_zero)
next
  case False
  have p: "(2::real) powr (- real j) = 1 / 2 ^ j"
    by (simp add: powr_minus powr_realpow inverse_eq_divide)
  have "\<bar>real_of_int m\<bar> < of_int (2 ^ 53)"
    using m by (simp only: of_int_abs [symmetric] of_int_less_iff)
  then have a: "\<bar>real_of_int m\<bar> < 2 ^ 53" by simp
  have "(1::real) \<le> 2 ^ j" by simp
  then have "\<bar>real_of_int m\<bar> / 2 ^ j \<le> \<bar>real_of_int m\<bar>"
    by (simp add: divide_le_eq mult_le_cancel_left1)
  with a have "\<bar>real_of_int m\<bar> / 2 ^ j < 2 ^ 53" by linarith
  moreover have "(2::real) ^ 53 < double_limit"
    unfolding double_limit_def by (intro power_strict_increasing) simp_all
  ultimately have "\<bar>real_of_int m * 2 powr of_int (- int j)\<bar> < double_limit"
    by (simp add: p abs_mult)
  with False m j
  have "round_double (of_int m * 2 powr of_int (- int j)) = Fin (of_int m * 2 powr of_int (- int j))"
    by (intro round_double_exact) simp_all
  then show ?thesis by (simp add: p)
qed

lemma round_double_limit: "round_double (2 ^ 1024) = PInf"
  by (rule round_double_overflow) (simp add: double_limit_def)


section \<open>Facts about sorting\<close>

lemma flt_irrefl: "\<not> flt a a"
  by (cases a) simp_all

lemma flt_asym: "flt a b \<Longrightarrow> \<not> flt b a"
  by (cases a; cases b) simp_all

lemma not_flt_trans:
  assumes "\<not> is_nan a" "\<not> is_nan b" "\<not> is_nan c" and "\<not> flt b a" and "\<not> flt c b"
  shows "\<not> flt c a"
  using assms by (cases a; cases b; cases c) simp_all

lemma insert_key_mset: "mset (insert_key k x ys) = add_mset x (mset ys)"
  by (induction ys) simp_all

lemma insertion_sort_mset: "mset (insertion_sort k xs) = mset xs"
  by (induction xs) (simp_all add: insert_key_mset)

lemma insert_key_stable:
  "filter (\<lambda>z. k z = c) (insert_key k x ys) =
     (if k x = c then x # filter (\<lambda>z. k z = c) ys else filter (\<lambda>z. k z = c) ys)"
  by (induction ys) (auto simp add: flt_irrefl)

lemma insertion_sort_stable:
  "filter (\<lambda>z. k z = c) (insertion_sort k xs) = filter (\<lambda>z. k z = c) xs"
  by (induction xs) (simp_all add: insert_key_stable)

lemma insert_key_set: "set (insert_key k x ys) = insert x (set ys)"
  by (induction ys) auto

lemma insert_key_ascending:
  assumes "\<not> is_nan (k x)" and "\<forall>y \<in> set ys. \<not> is_nan (k y)"
      and "sorted_wrt (\<lambda>a b. \<not> flt (k b) (k a)) ys"
  shows "sorted_wrt (\<lambda>a b. \<not> flt (k b) (k a)) (insert_key k x ys)"
  using assms
proof (induction ys)
  case Nil
  then show ?case by simp
next
  case (Cons y ys)
  show ?case
  proof (cases "flt (k y) (k x)")
    case True
    with Cons show ?thesis by (auto simp add: insert_key_set dest: flt_asym)
  next
    case False
    have "\<not> flt (k z) (k x)" if "z \<in> set ys" for z
    proof -
      from that Cons.prems have "\<not> flt (k z) (k y)" "\<not> is_nan (k z)" "\<not> is_nan (k y)" by auto
      with False Cons.prems(1) show ?thesis by (meson not_flt_trans)
    qed
    with False Cons.prems show ?thesis by auto
  qed
qed

lemma insertion_sort_ascending:
  "\<forall>y \<in> set xs. \<not> is_nan (k y) \<Longrightarrow> sorted_wrt (\<lambda>a b. \<not> flt (k b) (k a)) (insertion_sort k xs)"
proof (induction xs)
  case Nil
  then show ?case by simp
next
  case (Cons x xs)
  have "set (insertion_sort k xs) = set xs"
    by (metis insertion_sort_mset mset_eq_setD)
  with Cons show ?case by (auto intro!: insert_key_ascending)
qed

lemma in_order_ascending:
  "\<forall>a \<in> set ks. \<not> is_nan a \<Longrightarrow> in_order ks \<Longrightarrow> sorted_wrt (\<lambda>a b. \<not> flt b a) ks"
proof (induction ks rule: in_order.induct)
  case (1 a b rest)
  then have tl: "sorted_wrt (\<lambda>a b. \<not> flt b a) (b # rest)" by simp
  have "\<not> flt c a" if "c \<in> set rest" for c
  proof -
    from tl that have "\<not> flt c b" by simp
    moreover from 1 have "\<not> flt b a" by simp
    moreover from 1 that have "\<not> is_nan a" "\<not> is_nan b" "\<not> is_nan c" by auto
    ultimately show ?thesis by (meson not_flt_trans)
  qed
  with 1 tl show ?case by auto
qed simp_all

lemma sort_ascending_mset: "mset (sort_ascending k xs) = mset xs"
  by (simp add: sort_ascending_def insertion_sort_mset)

lemma sort_ascending_stable:
  "filter (\<lambda>z. k z = c) (sort_ascending k xs) = filter (\<lambda>z. k z = c) xs"
  by (simp add: sort_ascending_def insertion_sort_stable)

lemma sort_ascending_sorted:
  assumes "\<forall>y \<in> set xs. \<not> is_nan (k y)"
  shows "sorted_wrt (\<lambda>a b. \<not> flt (k b) (k a)) (sort_ascending k xs)"
proof (cases "in_order (map k xs)")
  case True
  from assms have "\<forall>a \<in> set (map k xs). \<not> is_nan a" by simp
  then have "sorted_wrt (\<lambda>a b. \<not> flt b a) (map k xs)" using True by (rule in_order_ascending)
  then show ?thesis using True by (simp add: sort_ascending_def sorted_wrt_map)
next
  case False
  then show ?thesis using assms by (simp add: sort_ascending_def insertion_sort_ascending)
qed

lemma py_sorted_mset: "mset (py_sorted k r xs) = mset xs"
  by (simp add: py_sorted_def sort_ascending_mset)

lemma py_sorted_length: "length (py_sorted k r xs) = length xs"
  by (metis py_sorted_mset size_mset)

lemma set_py_sorted: "set (py_sorted k r xs) = set xs"
  by (metis py_sorted_mset mset_eq_setD)

lemma py_sorted_stable: "filter (\<lambda>x. k x = c) (py_sorted k r xs) = filter (\<lambda>x. k x = c) xs"
  by (simp add: py_sorted_def sort_ascending_stable rev_filter [symmetric])

lemma py_sorted_desc:
  assumes "\<forall>y \<in> set xs. \<not> is_nan (k y)"
  shows "sorted_wrt (\<lambda>a b. \<not> flt (k a) (k b)) (py_sorted k True xs)"
proof -
  from assms have "\<forall>y \<in> set (rev xs). \<not> is_nan (k y)" by simp
  then have "sorted_wrt (\<lambda>a b. \<not> flt (k b) (k a)) (sort_ascending k (rev xs))"
    by (rule sort_ascending_sorted)
  then show ?thesis by (simp add: py_sorted_def sorted_wrt_rev)
qed

lemma map_insert_key:
  "map f (insert_key (\<lambda>x. k (f x)) a xs) = insert_key k (f a) (map f xs)"
  by (induction xs) simp_all

lemma map_insertion_sort:
  "map f (insertion_sort (\<lambda>x. k (f x)) xs) = insertion_sort k (map f xs)"
  by (induction xs) (simp_all add: map_insert_key)

lemma map_sort_ascending:
  "map f (sort_ascending (\<lambda>x. k (f x)) xs) = sort_ascending k (map f xs)"
  by (simp add: sort_ascending_def map_insertion_sort comp_def)

lemma map_py_sorted: "map f (py_sorted (\<lambda>x. k (f x)) r xs) = py_sorted k r (map f xs)"
  by (simp add: py_sorted_def rev_map [symmetric] map_sort_ascending)

lemma top_n_length:
  "length (top_n_by_value items n) = (if n \<le> 0 then 0 else min (nat n) (length items))"
  by (simp add: top_n_by_value_def slice_upto_def py_sorted_length min.commute)

section \<open>Facts about the arithmetic of \<open>normalize_values\<close> and \<open>stats\<close>\<close>

lemma scaled_items_map:
  "\<not> is_zero tot \<Longrightarrow> scaled_items rnd tot items =
     Inr (map (\<lambda>i. \<lparr>item_id = item_id i, item_name = item_name i,
                      item_value = fdiv rnd (item_value i) tot\<rparr>) items)"
  by (induction items) (simp_all add: then_do_def truediv_def)

lemma is_negative_simps:
  "is_negative (Fin a) = (a < 0)" "is_negative PInf = False" "is_negative NInf = True"
  "is_negative NaN = False"
  by (simp_all add: is_negative_def)

lemma round_double_not_negative: "0 \<le> x \<Longrightarrow> \<not> is_negative (round_double x)"
  using round_double_nonneg [of x] by (auto simp add: is_negative_simps)


lemma square_not_negative:
  assumes "square round_double x = Inr q"
  shows "\<not> is_negative q"
proof (cases x)
  case (Fin a)
  with assms have "q = round_double (a * a)" by (auto split: pyfloat.splits)
  moreover have "\<not> is_negative (round_double (a * a))"
    by (rule round_double_not_negative) simp
  ultimately show ?thesis by simp
next
  case PInf
  with assms show ?thesis by (auto simp add: is_negative_simps)
next
  case NInf
  with assms show ?thesis by (auto simp add: is_negative_simps)
next
  case NaN
  with assms show ?thesis by (auto simp add: is_negative_simps)
qed


lemma squared_deviations_not_negative:
  "squared_deviations round_double m vs = Inr qs \<Longrightarrow> \<forall>q \<in> set qs. \<not> is_negative q"
proof (induction vs arbitrary: qs)
  case Nil
  then show ?case by simp
next
  case (Cons v vs)
  then show ?case
    by (auto simp add: then_do_def split: sum.splits dest: square_not_negative)
qed


lemma fadd_not_negative:
  "\<not> is_negative a \<Longrightarrow> \<not> is_negative b \<Longrightarrow> \<not> is_negative (fadd round_double a b)"
  by (cases a; cases b) (simp_all add: is_negative_simps round_double_not_negative)

lemma foldl_fadd_not_negative:
  "\<not> is_negative acc \<Longrightarrow> \<forall>q \<in> set qs. \<not> is_negative q \<Longrightarrow>
   \<not> is_negative (foldl (fadd round_double) acc qs)"
  by (induction qs arbitrary: acc) (simp_all add: fadd_not_negative)

lemma py_sum_not_negative:
  "\<forall>q \<in> set qs. \<not> is_negative q \<Longrightarrow> \<not> is_negative (py_sum round_double qs)"
  unfolding py_sum_def by (rule foldl_fadd_not_negative) (simp_all add: is_negative_simps)

lemma fdiv_not_negative:
  "\<not> is_negative a \<Longrightarrow> 0 < c \<Longrightarrow> \<not> is_negative (fdiv round_double a (Fin c))"
  by (cases a) (simp_all add: is_negative_simps round_double_not_negative)

lemma math_sqrt_not_negative:
  "\<not> is_negative v \<Longrightarrow> math_sqrt rnd v = Inr (sqrt_value rnd v)"
  by (cases v) (simp_all add: is_negative_simps)



lemma float_of_int_positive:
  assumes "1 \<le> n" and "float_of_int round_double n = Inr c"
  shows "\<exists>r. c = Fin r \<and> 1 \<le> r"
proof -
  from assms(1) have "1 \<le> real_of_int n" by simp
  then have "round_double (of_int n) = PInf \<or> (\<exists>r. round_double (of_int n) = Fin r \<and> 1 \<le> r)"
    by (rule round_double_ge_one)
  with assms(2) show ?thesis by (auto simp add: float_of_int_def)
qed

lemma stats_empty:
  "stats rnd [] = Inr \<lparr>st_count = 0, st_sum = Fin 0, st_mean = None, st_stddev = None\<rparr>"
  by (simp add: stats_def)

lemma stats_unfold:
  assumes "items \<noteq> []"
  shows "stats rnd items =
     then_do (float_of_int rnd (int (length items))) (\<lambda>c.
     then_do (truediv rnd (py_sum rnd (map item_value items)) c) (\<lambda>mean.
     then_do (squared_deviations rnd mean (map item_value items)) (\<lambda>squares.
     then_do (truediv rnd (py_sum rnd squares) c) (\<lambda>variance.
     then_do (math_sqrt rnd variance) (\<lambda>stddev.
       Inr \<lparr>st_count = int (length items), st_sum = py_sum rnd (map item_value items),
            st_mean = Some mean, st_stddev = Some stddev\<rparr>)))))"
  using assms
  by (simp add: stats_def Let_def truediv_int_def then_do_def split: sum.splits)

lemma stats_returns:
  assumes ne: "items \<noteq> []"
      and c: "float_of_int round_double (int (length items)) = Inr c"
      and sq: "squared_deviations round_double
                 (fdiv round_double (py_sum round_double (map item_value items)) c)
                 (map item_value items) = Inr squares"
  shows "\<not> is_negative (fdiv round_double (py_sum round_double squares) c)"
    and "stats round_double items =
          Inr \<lparr>st_count = int (length items),
               st_sum = py_sum round_double (map item_value items),
               st_mean = Some (fdiv round_double (py_sum round_double (map item_value items)) c),
               st_stddev = Some (sqrt_value round_double (fdiv round_double (py_sum round_double squares) c))\<rparr>"
proof -
  from ne have "1 \<le> int (length items)" by (cases items) simp_all
  then obtain r where cr: "c = Fin r" and r: "1 \<le> r"
    using float_of_int_positive c by blast
  then have nz: "\<not> is_zero c" by (simp add: is_zero_def)
  from sq have "\<forall>q \<in> set squares. \<not> is_negative q" by (rule squared_deviations_not_negative)
  then have "\<not> is_negative (py_sum round_double squares)" by (rule py_sum_not_negative)
  then show nn: "\<not> is_negative (fdiv round_double (py_sum round_double squares) c)"
    unfolding cr using r by (intro fdiv_not_negative) simp_all
  then have "math_sqrt round_double (fdiv round_double (py_sum round_double squares) c) =
      Inr (sqrt_value round_double (fdiv round_double (py_sum round_double squares) c))"
    by (rule math_sqrt_not_negative)
  with sq c nz show "stats round_double items =
          Inr \<lparr>st_count = int (length items),
               st_sum = py_sum round_double (map item_value items),
               st_mean = Some (fdiv round_double (py_sum round_double (map item_value items)) c),
               st_stddev = Some (sqrt_value round_double (fdiv round_double (py_sum round_double squares) c))\<rparr>"
    by (simp add: stats_unfold [OF ne] then_do_def truediv_def)
qed


lemma stats_count: "stats rnd items = Inr st \<Longrightarrow> st_count st = int (length items)"
proof (cases "items = []")
  case True
  then show "stats rnd items = Inr st \<Longrightarrow> st_count st = int (length items)"
    by (auto simp add: stats_empty)
next
  case False
  show "stats rnd items = Inr st \<Longrightarrow> st_count st = int (length items)"
    unfolding stats_unfold [OF False]
    by (auto simp add: then_do_def split: sum.splits)
qed

lemma two_powers_add: "j \<le> k \<Longrightarrow> (2::real) ^ j + 2 ^ k \<le> 2 ^ Suc k"
proof -
  assume "j \<le> k"
  then have "(2::real) ^ j \<le> 2 ^ k" by (intro power_increasing) simp_all
  then show ?thesis by simp
qed

lemma foldl_fadd_bound:
  assumes "\<bar>acc\<bar> \<le> 2 ^ j"
      and "\<forall>v \<in> set vs. \<exists>a. v = Fin a \<and> \<bar>a\<bar> \<le> 2 ^ k"
      and "k \<le> j" and "j + length vs < 1024"
  shows "\<exists>s. foldl (fadd round_double) (Fin acc) vs = Fin s \<and> \<bar>s\<bar> \<le> 2 ^ (j + length vs)"
  using assms
proof (induction vs arbitrary: acc j)
  case Nil
  then show ?case by simp
next
  case (Cons v vs)
  from Cons.prems(2) obtain a where v: "v = Fin a" and a: "\<bar>a\<bar> \<le> 2 ^ k" by auto
  have "\<bar>acc + a\<bar> \<le> \<bar>acc\<bar> + \<bar>a\<bar>" by (rule abs_triangle_ineq)
  also have "\<dots> \<le> 2 ^ k + 2 ^ j" using Cons.prems(1) a by linarith
  also have "\<dots> \<le> 2 ^ Suc j" using Cons.prems(3) by (rule two_powers_add)
  finally have le: "\<bar>acc + a\<bar> \<le> 2 ^ Suc j" .
  from Cons.prems(4) have "Suc j < 1024" by simp
  with le obtain r where r: "round_double (acc + a) = Fin r" and rb: "\<bar>r\<bar> \<le> 2 ^ Suc j"
    using round_double_bound by blast
  have "\<exists>s. foldl (fadd round_double) (Fin r) vs = Fin s \<and> \<bar>s\<bar> \<le> 2 ^ (Suc j + length vs)"
    using rb Cons.prems by (intro Cons.IH) auto
  then show ?case by (simp add: v r)
qed

lemma py_sum_bound:
  assumes "\<forall>v \<in> set vs. \<exists>a. v = Fin a \<and> \<bar>a\<bar> \<le> 2 ^ k" and "k + length vs < 1024"
  shows "\<exists>s. py_sum round_double vs = Fin s \<and> \<bar>s\<bar> \<le> 2 ^ (k + length vs)"
  unfolding py_sum_def using foldl_fadd_bound [of 0 k vs k] assms by simp

lemma squared_deviations_bounded:
  assumes "\<bar>m\<bar> \<le> 2 ^ j"
      and "\<forall>v \<in> set vs. \<exists>a. v = Fin a \<and> \<bar>a\<bar> \<le> 2 ^ k"
      and "k \<le> j" and "2 * Suc j < 1024"
  shows "\<exists>qs. squared_deviations round_double (Fin m) vs = Inr qs"
  using assms(2)
proof (induction vs)
  case Nil
  then show ?case by simp
next
  case (Cons v vs)
  then obtain a where v: "v = Fin a" and a: "\<bar>a\<bar> \<le> 2 ^ k" by auto
  have "\<bar>a - m\<bar> \<le> \<bar>a\<bar> + \<bar>m\<bar>" by (rule abs_triangle_ineq4)
  also have "\<dots> \<le> 2 ^ k + 2 ^ j" using assms(1) a by simp
  also have "\<dots> \<le> 2 ^ Suc j" using assms(3) by (rule two_powers_add)
  finally have le: "\<bar>a - m\<bar> \<le> 2 ^ Suc j" .
  from assms(4) have "Suc j < 1024" by simp
  with le obtain d where d: "round_double (a - m) = Fin d" and db: "\<bar>d\<bar> \<le> 2 ^ Suc j"
    using round_double_bound by blast
  have "\<bar>d * d\<bar> = \<bar>d\<bar> * \<bar>d\<bar>" by (rule abs_mult)
  also have "\<dots> \<le> 2 ^ Suc j * 2 ^ Suc j" using db by (intro mult_mono) simp_all
  also have "\<dots> = 2 ^ (2 * Suc j)" by (simp add: power_add [symmetric] mult_2 del: power_Suc)
  finally have "\<bar>d * d\<bar> \<le> 2 ^ (2 * Suc j)" .
  with assms(4) obtain q where q: "round_double (d * d) = Fin q"
    using round_double_bound by blast
  from Cons obtain qs where "squared_deviations round_double (Fin m) vs = Inr qs" by auto
  then show ?case by (simp add: v fsub_def d q then_do_def)
qed

lemma small_values_Fin:
  assumes "small_values items"
  shows "\<forall>v \<in> set (map item_value items). \<exists>a. v = Fin a \<and> \<bar>a\<bar> \<le> 2 ^ 400"
proof
  fix v
  assume "v \<in> set (map item_value items)"
  then obtain i where i: "i \<in> set items" and v: "v = item_value i" by auto
  from assms i have "case item_value i of Fin a \<Rightarrow> \<bar>a\<bar> \<le> 2 ^ 400 | _ \<Rightarrow> False"
    unfolding small_values_def list_all_iff by blast
  then show "\<exists>a. v = Fin a \<and> \<bar>a\<bar> \<le> 2 ^ 400"
    unfolding v by (cases "item_value i") simp_all
qed

lemma stats_small:
  assumes small: "small_values items" and ne: "items \<noteq> []"
  shows "\<exists>st. stats round_double items = Inr st"
proof -
  let ?vals = "map item_value items"
  let ?n = "length items"
  from small have n: "?n \<le> 100" by (simp add: small_values_def)
  from ne have n1: "1 \<le> ?n" by (cases items) simp_all
  have vals: "\<forall>v \<in> set ?vals. \<exists>a. v = Fin a \<and> \<bar>a\<bar> \<le> 2 ^ 400"
    using small by (rule small_values_Fin)
  have "\<bar>int ?n\<bar> < 2 ^ 53" using n by simp
  then have "round_double (of_int (int ?n)) = Fin (of_int (int ?n))" by (rule round_double_int)
  then have c: "float_of_int round_double (int ?n) = Inr (Fin (real ?n))"
    by (simp add: float_of_int_def)
  have "400 + length ?vals < 1024" using n by simp
  with vals obtain s where s: "py_sum round_double ?vals = Fin s"
    and sb: "\<bar>s\<bar> \<le> 2 ^ (400 + length ?vals)"
    using py_sum_bound [of ?vals 400] by blast
  have "(2::real) ^ (400 + length ?vals) \<le> 2 ^ 500"
    using n by (intro power_increasing) simp_all
  with sb have sb': "\<bar>s\<bar> \<le> 2 ^ 500" by linarith
  have "\<bar>s / real ?n\<bar> = \<bar>s\<bar> / real ?n" by simp
  also have "\<dots> \<le> \<bar>s\<bar>" using n1 by (simp add: divide_le_eq mult_le_cancel_left1)
  finally have "\<bar>s / real ?n\<bar> \<le> 2 ^ 500" using sb' by linarith
  then obtain m where m: "round_double (s / real ?n) = Fin m" and mb: "\<bar>m\<bar> \<le> 2 ^ 500"
    using round_double_bound [of "s / real ?n" 500] by auto
  have mean: "fdiv round_double (py_sum round_double ?vals) (Fin (real ?n)) = Fin m"
    by (simp add: s m)
  obtain qs where "squared_deviations round_double (Fin m) ?vals = Inr qs"
    using squared_deviations_bounded [of m 500 ?vals 400] mb vals by auto
  then have "squared_deviations round_double
      (fdiv round_double (py_sum round_double ?vals) (Fin (real ?n))) ?vals = Inr qs"
    by (simp only: mean)
  from stats_returns(2) [OF ne c this] show ?thesis by blast
qed



section \<open>The program on the sample inputs\<close>





















lemma example_roundings:
  "round_double 5 = Fin 5" "round_double 10 = Fin 10" "round_double 15 = Fin 15"
  "round_double 25 = Fin 25" "round_double 50 = Fin 50" "round_double (- 5) = Fin (- 5)"
  "round_double (35 / 2) = Fin (35 / 2)" "round_double (5 / 2) = Fin (5 / 2)"
  "round_double (- (5 / 2)) = Fin (- (5 / 2))" "round_double (25 / 4) = Fin (25 / 4)"
  "round_double (225 / 4) = Fin (225 / 4)" "round_double (125 / 2) = Fin (125 / 2)"
  "round_double (25 / 2) = Fin (25 / 2)"
  using round_double_int [of 5] round_double_int [of 10] round_double_int [of 15]
    round_double_int [of 25] round_double_int [of 50] round_double_int [of "- 5"]
    round_double_dyadic [of 35 1] round_double_dyadic [of 5 1] round_double_dyadic [of "- 5" 1]
    round_double_dyadic [of 25 2] round_double_dyadic [of 225 2] round_double_dyadic [of 125 1]
    round_double_dyadic [of 25 1]
  by simp_all

lemma example_count: "float_of_int round_double 5 = Inr (Fin 5)"
  by (simp add: float_of_int_def example_roundings)

lemma example_sum: "py_sum round_double (map item_value build_example_items) = Fin 25"
  by (simp add: py_sum_def build_example_items_def example_roundings)

lemma example_squares:
  "squared_deviations round_double (Fin 5) (map item_value build_example_items) =
     Inr [Fin 25, Fin 0, Fin 25, Fin (25 / 4), Fin (25 / 4)]"
  by (simp add: build_example_items_def fsub_def then_do_def example_roundings round_double_zero)

lemma example_square_sum:
  "py_sum round_double [Fin 25, Fin 0, Fin 25, Fin (25 / 4), Fin (25 / 4)] = Fin (125 / 2)"
  by (simp add: py_sum_def example_roundings)

lemma stats_example:
  "stats round_double build_example_items =
     Inr \<lparr>st_count = 5, st_sum = Fin 25, st_mean = Some (Fin 5),
          st_stddev = Some (round_double (sqrt (25 / 2)))\<rparr>"
proof -
  have ne: "build_example_items \<noteq> []" by (simp add: build_example_items_def)
  have len: "int (length build_example_items) = 5" by (simp add: build_example_items_def)
  have c: "float_of_int round_double (int (length build_example_items)) = Inr (Fin 5)"
    by (simp only: len example_count)
  have mean: "fdiv round_double (py_sum round_double (map item_value build_example_items)) (Fin 5) = Fin 5"
    by (simp add: example_sum example_roundings)
  have sq: "squared_deviations round_double
      (fdiv round_double (py_sum round_double (map item_value build_example_items)) (Fin 5))
      (map item_value build_example_items) = Inr [Fin 25, Fin 0, Fin 25, Fin (25 / 4), Fin (25 / 4)]"
    by (simp only: mean example_squares)
  from stats_returns(2) [OF ne c sq] show ?thesis
    by (simp add: len example_sum example_square_sum example_roundings)
qed

lemma small_example: "small_values build_example_items"
  by (simp add: small_values_def build_example_items_def)

lemma small_quotient:
  assumes "\<bar>x\<bar> \<le> 1"
  shows "case round_double x of Fin a \<Rightarrow> \<bar>a\<bar> \<le> 2 ^ 400 | _ \<Rightarrow> False"
proof -
  from assms have "\<bar>x\<bar> \<le> 2 ^ 0" by simp
  then obtain r where r: "round_double x = Fin r" and rb: "\<bar>r\<bar> \<le> 2 ^ 0"
    using round_double_bound [of x 0] by auto
  have "(2::real) ^ 0 \<le> 2 ^ 400" by (intro power_increasing) simp_all
  with rb have "\<bar>r\<bar> \<le> 2 ^ 400" by linarith
  with r show ?thesis by simp
qed

lemma working_set_example:
  "\<exists>items. (if args_normalize a then normalize_values round_double build_example_items
              else Inr build_example_items) = Inr items \<and> length items = 5 \<and> small_values items"
proof (cases "args_normalize a")
  case True
  have nz: "\<not> is_zero (Fin 25)" by (simp add: is_zero_def)
  have n: "normalize_values round_double build_example_items =
      Inr (map (\<lambda>i. \<lparr>item_id = item_id i, item_name = item_name i,
                        item_value = fdiv round_double (item_value i) (Fin 25)\<rparr>)
            build_example_items)"
    using nz by (simp add: normalize_values_def Let_def scaled_items_map example_sum)
  have "small_values (map (\<lambda>i. \<lparr>item_id = item_id i, item_name = item_name i,
                        item_value = fdiv round_double (item_value i) (Fin 25)\<rparr>)
            build_example_items)"
    by (simp add: small_values_def build_example_items_def small_quotient round_double_zero)
  with True n show ?thesis by (simp add: build_example_items_def)
next
  case False
  then show ?thesis using small_example by (simp add: build_example_items_def)
qed

section \<open>Exact arithmetic\<close>




section \<open>Facts about the store\<close>

lemma load_items_sound:
  "load_items s refs = Some ps \<Longrightarrow> (r, i) \<in> set ps \<Longrightarrow> items_at s r = Some i"
  by (induction refs arbitrary: ps) (auto split: option.splits)

lemma load_items_complete:
  "\<forall>p \<in> set qs. items_at s (fst p) = Some (snd p) \<Longrightarrow> load_items s (map fst qs) = Some qs"
  by (induction qs) auto

lemma load_items_cong: "items_at s' = items_at s \<Longrightarrow> load_items s' refs = load_items s refs"
  by (induction refs) (simp_all cong: option.case_cong)

lemma slice_upto_map: "slice_upto (map f xs) n = map f (slice_upto xs n)"
  by (simp add: slice_upto_def take_map)

lemma set_slice_upto: "set (slice_upto xs n) \<subseteq> set xs"
  by (auto simp add: slice_upto_def dest: in_set_takeD)

lemma top_n_as_slice:
  "top_n_by_value items n = (if n \<le> 0 then [] else slice_upto (py_sorted item_value True items) n)"
  by (simp add: top_n_by_value_def)

lemma new_list_items [simp]: "items_at (fst (new_list s refs)) = items_at s"
  by (simp add: new_list_def)

lemma new_list_lists [simp]: "lists_at (fst (new_list s refs)) = (lists_at s)(next_ref s \<mapsto> refs)"
  by (simp add: new_list_def)

lemma new_list_next [simp]: "next_ref (fst (new_list s refs)) = Suc (next_ref s)"
  by (simp add: new_list_def)

lemma new_list_ref [simp]: "snd (new_list s refs) = next_ref s"
  by (simp add: new_list_def)

lemma list_value_frame:
  assumes "items_at s' = items_at s" and "lists_at s' l = lists_at s l"
  shows "list_value s' l = list_value s l"
  using assms(2) by (simp add: list_value_def load_items_cong [OF assms(1)] split: option.splits)

lemma list_value_loaded:
  assumes "lists_at s l = Some (map fst qs)"
      and "\<forall>p \<in> set qs. items_at s (fst p) = Some (snd p)"
  shows "list_value s l = Some (map snd qs)"
  using assms by (simp add: list_value_def load_items_complete)

section \<open>Properties\<close>



text \<open>
  C2, as stated: for every list and every \<open>n > 0\<close> the result would be the first
  \<open>n\<close> records in descending order of value. A value can be NaN, and every
  comparison with NaN is false: the list \<open>1.0, nan, 2.0\<close> is returned by
  \<open>sorted(..., reverse=True)\<close> as it is, and the top 1 is the record with value
  \<open>1.0\<close> although the list holds one with value \<open>2.0\<close>.
\<close>

theorem top_n_nan_counterexample:
  "top_n_by_value nan_items 1 = [\<lparr>item_id = 1, item_name = ''a'', item_value = Fin 1\<rparr>] \<and>
   \<lparr>item_id = 3, item_name = ''c'', item_value = Fin 2\<rparr> \<in> set nan_items \<and>
   flt (Fin 1) (Fin 2) \<and>
   py_sorted item_value True nan_items = nan_items"
  by (simp add: top_n_by_value_def nan_items_def py_sorted_def sort_ascending_def slice_upto_def)

text \<open>
  C2, amended: for every list in which no value is NaN and every \<open>n > 0\<close>,
  \<open>top_n_by_value\<close> returns the first \<open>n\<close> elements of the sorted list, which is a
  rearrangement of the input in which no element has a greater value than an
  element before it and in which the elements of equal value keep their input
  order; the result has \<open>min n (length items)\<close> elements, and it is the whole
  sorted list when \<open>n\<close> is at least the length.
\<close>

theorem top_n_positive:
  assumes "0 < n" and "list_all (\<lambda>i. \<not> is_nan (item_value i)) items"
  shows "top_n_by_value items n = take (nat n) (py_sorted item_value True items) \<and>
         mset (py_sorted item_value True items) = mset items \<and>
         sorted_wrt (\<lambda>a b. \<not> flt (item_value a) (item_value b)) (py_sorted item_value True items) \<and>
         (\<forall>c. filter (\<lambda>x. item_value x = c) (py_sorted item_value True items)
               = filter (\<lambda>x. item_value x = c) items) \<and>
         length (top_n_by_value items n) = min (nat n) (length items) \<and>
         (int (length items) \<le> n \<longrightarrow> top_n_by_value items n = py_sorted item_value True items)"
proof -
  from assms(2) have "\<forall>y \<in> set items. \<not> is_nan (item_value y)" by (simp add: list_all_iff)
  then have "sorted_wrt (\<lambda>a b. \<not> flt (item_value a) (item_value b)) (py_sorted item_value True items)"
    by (rule py_sorted_desc)
  with assms(1) show ?thesis
    by (simp add: top_n_by_value_def slice_upto_def py_sorted_mset py_sorted_length
        py_sorted_stable min_def)
qed

theorem top_n_positive_witness:
  "(0::int) < 2 \<and> list_all (\<lambda>i. \<not> is_nan (item_value i)) tie_items \<and>
   top_n_by_value tie_items 2 =
     [\<lparr>item_id = 2, item_name = ''b'', item_value = Fin 2\<rparr>,
      \<lparr>item_id = 3, item_name = ''c'', item_value = Fin 2\<rparr>] \<and>
   length (top_n_by_value tie_items 2) = min (nat 2) (length tie_items) \<and>
   int (length tie_items) \<le> 7 \<and>
   top_n_by_value tie_items 7 =
     [\<lparr>item_id = 2, item_name = ''b'', item_value = Fin 2\<rparr>,
      \<lparr>item_id = 3, item_name = ''c'', item_value = Fin 2\<rparr>,
      \<lparr>item_id = 1, item_name = ''a'', item_value = Fin 1\<rparr>,
      \<lparr>item_id = 4, item_name = ''d'', item_value = Fin 0\<rparr>]"
proof -
  have nn: "list_all (\<lambda>i. \<not> is_nan (item_value i)) tie_items" by (simp add: tie_items_def)
  have s: "py_sorted item_value True tie_items =
     [\<lparr>item_id = 2, item_name = ''b'', item_value = Fin 2\<rparr>,
      \<lparr>item_id = 3, item_name = ''c'', item_value = Fin 2\<rparr>,
      \<lparr>item_id = 1, item_name = ''a'', item_value = Fin 1\<rparr>,
      \<lparr>item_id = 4, item_name = ''d'', item_value = Fin 0\<rparr>]"
    by (simp add: tie_items_def py_sorted_def sort_ascending_def)
  from top_n_positive [of 2 tie_items] top_n_positive [of 7 tie_items] nn show ?thesis
    by (simp add: s) (simp add: tie_items_def)
qed




text \<open>
  C4: the statistics that \<open>main\<close> emits, in either output mode, are those of the
  whole working set (the sample, normalized when \<open>--normalize\<close> is given), which has
  five elements, and not those of the top list: whenever fewer than five items are
  displayed, the statistics of the top list are different.
\<close>

theorem main_stats_over_working_set:
  "\<exists>items st.
     (if args_normalize a then normalize_values round_double build_example_items
      else Inr build_example_items) = Inr items \<and>
     stats round_double items = Inr st \<and> st_count st = 5 \<and>
     main round_double a =
       Inr (if args_json a
            then [JsonDump \<lparr>out_top = map as_dict (top_n_by_value items (args_top a)), out_stats = st\<rparr>]
            else [Line [Lit ''Top items:'']]
                 @ map (\<lambda>it. Line (item_line it)) (top_n_by_value items (args_top a))
                 @ [Line [], Line (stats_line st)], 0) \<and>
     (args_top a < 5 \<longrightarrow> stats round_double (top_n_by_value items (args_top a)) \<noteq> Inr st)"
proof -
  obtain items where ws: "(if args_normalize a then normalize_values round_double build_example_items
      else Inr build_example_items) = Inr items" and len: "length items = 5"
      and small: "small_values items"
    using working_set_example by blast
  from len have ne: "items \<noteq> []" by auto
  obtain st where st: "stats round_double items = Inr st"
    using stats_small [OF small ne] by blast
  have cnt: "st_count st = 5" using stats_count [OF st] len by simp
  have m: "main round_double a =
       Inr (if args_json a
            then [JsonDump \<lparr>out_top = map as_dict (top_n_by_value items (args_top a)), out_stats = st\<rparr>]
            else [Line [Lit ''Top items:'']]
                 @ map (\<lambda>it. Line (item_line it)) (top_n_by_value items (args_top a))
                 @ [Line [], Line (stats_line st)], 0)"
    unfolding main_def ws by (simp add: then_do_def st Let_def)
  have sub: "stats round_double (top_n_by_value items (args_top a)) \<noteq> Inr st" if "args_top a < 5"
  proof
    assume "stats round_double (top_n_by_value items (args_top a)) = Inr st"
    then have "st_count st = int (length (top_n_by_value items (args_top a)))"
      by (rule stats_count)
    with cnt that show False by (simp add: top_n_length len split: if_splits)
  qed
  from ws st cnt m sub show ?thesis by blast
qed

theorem main_stats_over_working_set_witness:
  "args_top default_args < 5 \<and>
   (\<exists>st. stats round_double build_example_items = Inr st \<and> st_count st = 5 \<and>
      last (printed_of (main round_double default_args)) = Line (stats_line st) \<and>
      stats round_double (top_n_by_value build_example_items 3) \<noteq> Inr st)"
  using main_stats_over_working_set [of default_args]
  by (auto simp add: default_args_def printed_of_def)

text \<open>
  C5: for every \<open>n \<le> 0\<close> and every list, \<open>top_n_by_value\<close> returns the empty list;
  being a value of the list type, the result is not an exception.
\<close>

theorem top_n_nonpositive:
  assumes "n \<le> 0"
  shows "top_n_by_value items n = []"
  using assms by (simp add: top_n_by_value_def)

theorem top_n_nonpositive_witness:
  "(-2::int) \<le> 0 \<and> top_n_by_value build_example_items (-2) = []"
  using top_n_nonpositive [of "-2" build_example_items] by simp




text \<open>
  C7, as stated: in human-readable mode each top item would be printed exactly as
  \<open>- (id) name: value\<close>. The program begins the line with a blank: for the default
  options the second printed line is \<open> - (1) alpha: 10.0\<close>, not the line without
  the blank.
\<close>

theorem human_item_line_counterexample:
  "printed_of (main round_double default_args) ! 1
     = Line [Lit '' - ('', Val (PInt 1), Lit '') '', Val (PStr ''alpha''), Lit '': '', Val (PFloat (Fin 10))] \<and>
   printed_of (main round_double default_args) ! 1
     \<noteq> Line (spec_item_line \<lparr>item_id = 1, item_name = ''alpha'', item_value = Fin 10\<rparr>)"
proof -
  note ex = stats_example
  have top: "top_n_by_value build_example_items 3 =
     [\<lparr>item_id = 1, item_name = ''alpha'', item_value = Fin 10\<rparr>,
      \<lparr>item_id = 5, item_name = ''epsilon'', item_value = Fin (15 / 2)\<rparr>,
      \<lparr>item_id = 2, item_name = ''beta'', item_value = Fin 5\<rparr>]"
    by (simp add: top_n_by_value_def build_example_items_def py_sorted_def sort_ascending_def
        slice_upto_def)
  show ?thesis
    by (simp add: main_def default_args_def printed_of_def then_do_def ex top item_line_def
        spec_item_line_def)
qed

text \<open>
  C7, amended: in human-readable mode \<open>main\<close> prints the header \<open>Top items:\<close>,
  then for every top item a line made of one blank followed by
  \<open>- (id) name: value\<close>, then an empty line, then the line
  \<open>Stats (dash) count: c, sum: s, mean: m, stddev: sd\<close>, in which an absent mean
  or standard deviation is printed as Python's \<open>None\<close>, as for the statistics of
  the empty list; the exit status is 0.
\<close>

theorem human_readable_output:
  assumes "\<not> args_json a"
  shows "(\<exists>items st.
     (if args_normalize a then normalize_values round_double build_example_items
      else Inr build_example_items) = Inr items \<and>
     stats round_double items = Inr st \<and>
     main round_double a =
       Inr ([Line [Lit ''Top items:'']]
            @ map (\<lambda>it. Line [Lit '' - ('', Val (PInt (item_id it)), Lit '') '',
                               Val (PStr (item_name it)), Lit '': '', Val (PFloat (item_value it))])
                (top_n_by_value items (args_top a))
            @ [Line [],
               Line [Lit (''Stats '' @ [CHR 0xE2, CHR 0x80, CHR 0x94] @ '' count: ''),
                     Val (PInt (st_count st)),
                     Lit '', sum: '', Val (PFloat (st_sum st)),
                     Lit '', mean: '', Val (case st_mean st of None \<Rightarrow> PNone | Some x \<Rightarrow> PFloat x),
                     Lit '', stddev: '', Val (case st_stddev st of None \<Rightarrow> PNone | Some x \<Rightarrow> PFloat x)]],
            0)) \<and>
     stats_line \<lparr>st_count = 0, st_sum = Fin 0, st_mean = None, st_stddev = None\<rparr> =
       [Lit (''Stats '' @ [CHR 0xE2, CHR 0x80, CHR 0x94] @ '' count: ''), Val (PInt 0),
        Lit '', sum: '', Val (PFloat (Fin 0)), Lit '', mean: '', Val PNone,
        Lit '', stddev: '', Val PNone]"
proof -
  obtain items where ws: "(if args_normalize a then normalize_values round_double build_example_items
      else Inr build_example_items) = Inr items" and len: "length items = 5"
      and small: "small_values items"
    using working_set_example by blast
  from len have ne: "items \<noteq> []" by auto
  obtain st where st: "stats round_double items = Inr st"
    using stats_small [OF small ne] by blast
  have "main round_double a =
       Inr ([Line [Lit ''Top items:'']]
            @ map (\<lambda>it. Line (item_line it)) (top_n_by_value items (args_top a))
            @ [Line [], Line (stats_line st)], 0)"
    unfolding main_def ws using assms by (simp add: then_do_def st Let_def)
  then have "main round_double a =
       Inr ([Line [Lit ''Top items:'']]
            @ map (\<lambda>it. Line [Lit '' - ('', Val (PInt (item_id it)), Lit '') '',
                               Val (PStr (item_name it)), Lit '': '', Val (PFloat (item_value it))])
                (top_n_by_value items (args_top a))
            @ [Line [],
               Line [Lit (''Stats '' @ [CHR 0xE2, CHR 0x80, CHR 0x94] @ '' count: ''),
                     Val (PInt (st_count st)),
                     Lit '', sum: '', Val (PFloat (st_sum st)),
                     Lit '', mean: '', Val (case st_mean st of None \<Rightarrow> PNone | Some x \<Rightarrow> PFloat x),
                     Lit '', stddev: '', Val (case st_stddev st of None \<Rightarrow> PNone | Some x \<Rightarrow> PFloat x)]],
            0)"
    by (simp add: item_line_def stats_line_def em_dash_def float_or_none_def)
  with ws st have "\<exists>items st.
     (if args_normalize a then normalize_values round_double build_example_items
      else Inr build_example_items) = Inr items \<and>
     stats round_double items = Inr st \<and>
     main round_double a =
       Inr ([Line [Lit ''Top items:'']]
            @ map (\<lambda>it. Line [Lit '' - ('', Val (PInt (item_id it)), Lit '') '',
                               Val (PStr (item_name it)), Lit '': '', Val (PFloat (item_value it))])
                (top_n_by_value items (args_top a))
            @ [Line [],
               Line [Lit (''Stats '' @ [CHR 0xE2, CHR 0x80, CHR 0x94] @ '' count: ''),
                     Val (PInt (st_count st)),
                     Lit '', sum: '', Val (PFloat (st_sum st)),
                     Lit '', mean: '', Val (case st_mean st of None \<Rightarrow> PNone | Some x \<Rightarrow> PFloat x),
                     Lit '', stddev: '', Val (case st_stddev st of None \<Rightarrow> PNone | Some x \<Rightarrow> PFloat x)]],
            0)"
    by blast
  moreover have "stats_line \<lparr>st_count = 0, st_sum = Fin 0, st_mean = None, st_stddev = None\<rparr> =
       [Lit (''Stats '' @ [CHR 0xE2, CHR 0x80, CHR 0x94] @ '' count: ''), Val (PInt 0),
        Lit '', sum: '', Val (PFloat (Fin 0)), Lit '', mean: '', Val PNone,
        Lit '', stddev: '', Val PNone]"
    by (simp add: stats_line_def em_dash_def float_or_none_def)
  ultimately show ?thesis by (rule conjI)
qed

theorem human_readable_output_witness:
  "\<not> args_json default_args \<and>
   main round_double default_args =
       Inr ([Line [Lit ''Top items:''],
             Line [Lit '' - ('', Val (PInt 1), Lit '') '', Val (PStr ''alpha''), Lit '': '', Val (PFloat (Fin 10))],
             Line [Lit '' - ('', Val (PInt 5), Lit '') '', Val (PStr ''epsilon''), Lit '': '', Val (PFloat (Fin (15 / 2)))],
             Line [Lit '' - ('', Val (PInt 2), Lit '') '', Val (PStr ''beta''), Lit '': '', Val (PFloat (Fin 5))],
             Line [],
             Line [Lit (''Stats '' @ [CHR 0xE2, CHR 0x80, CHR 0x94] @ '' count: ''),
                     Val (PInt 5),
                     Lit '', sum: '', Val (PFloat (Fin 25)),
                     Lit '', mean: '', Val (PFloat (Fin 5)),
                     Lit '', stddev: '', Val (PFloat (round_double (sqrt (25 / 2))))]],
            0)"
proof -
  have nj: "\<not> args_json default_args" by (simp add: default_args_def)
  note ex = stats_example
  have top: "top_n_by_value build_example_items 3 =
     [\<lparr>item_id = 1, item_name = ''alpha'', item_value = Fin 10\<rparr>,
      \<lparr>item_id = 5, item_name = ''epsilon'', item_value = Fin (15 / 2)\<rparr>,
      \<lparr>item_id = 2, item_name = ''beta'', item_value = Fin 5\<rparr>]"
    by (simp add: top_n_by_value_def build_example_items_def py_sorted_def sort_ascending_def
        slice_upto_def)
  from human_readable_output [OF nj] nj show ?thesis
    by (auto simp add: default_args_def ex top)
qed

text \<open>
  C8: \<open>build_example_items\<close> is the fixed list of five items with the ids 1 to 5,
  the names alpha to epsilon and the values 10.0, 5.0, 0.0, 2.5, 7.5, and its top
  3 are alpha (10.0), epsilon (7.5) and beta (5.0), in this order.
\<close>

theorem build_example_items_top3:
  "length build_example_items = 5 \<and>
   map item_id build_example_items = [1, 2, 3, 4, 5] \<and>
   map item_name build_example_items = [''alpha'', ''beta'', ''gamma'', ''delta'', ''epsilon''] \<and>
   map item_value build_example_items = [Fin 10, Fin 5, Fin 0, Fin (5 / 2), Fin (15 / 2)] \<and>
   top_n_by_value build_example_items 3 =
     [\<lparr>item_id = 1, item_name = ''alpha'', item_value = Fin 10\<rparr>,
      \<lparr>item_id = 5, item_name = ''epsilon'', item_value = Fin (15 / 2)\<rparr>,
      \<lparr>item_id = 2, item_name = ''beta'', item_value = Fin 5\<rparr>]"
  by (simp add: top_n_by_value_def build_example_items_def py_sorted_def sort_ascending_def
      slice_upto_def)

text \<open>
  C9: a call of \<open>top_n_by_value\<close> on a list object leaves that object as it was:
  the same references in the same order, every \<open>Item\<close> object unchanged, and every
  other list object unchanged too. The result is a list object that did not exist
  before, and it holds what the function on values returns.
\<close>

theorem top_n_leaves_input_unchanged:
  assumes l: "lists_at s l = Some refs"
      and ps: "load_items s refs = Some ps"
      and fresh: "\<forall>r \<in> dom (lists_at s). r < next_ref s"
  shows "\<exists>s' res. top_n_by_value_st s l n = Some (s', res) \<and>
           items_at s' = items_at s \<and>
           (\<forall>r \<in> dom (lists_at s). lists_at s' r = lists_at s r) \<and>
           lists_at s' l = Some refs \<and>
           list_value s' l = list_value s l \<and>
           res \<notin> dom (lists_at s) \<and>
           list_value s' res = Some (top_n_by_value (map snd ps) n)"
proof -
  have lt: "r < next_ref s" if "r \<in> dom (lists_at s)" for r
    using fresh that by blast
  have nf: "next_ref s \<notin> dom (lists_at s)" "Suc (next_ref s) \<notin> dom (lists_at s)"
    using lt [of "next_ref s"] lt [of "Suc (next_ref s)"] by auto
  have loaded: "items_at s (fst p) = Some (snd p)" if "p \<in> set ps" for p
    using load_items_sound [OF ps, of "fst p" "snd p"] that by simp
  show ?thesis
  proof (cases "n \<le> 0")
    case True
    define s' where "s' = fst (new_list s [])"
    have run: "top_n_by_value_st s l n = Some (s', next_ref s)"
      using True by (simp add: top_n_by_value_st_def s'_def prod_eq_iff)
    have it: "items_at s' = items_at s" by (simp add: s'_def)
    have keep: "\<forall>r \<in> dom (lists_at s). lists_at s' r = lists_at s r"
      using nf(1) by (auto simp add: s'_def)
    have "l \<in> dom (lists_at s)" using l by (rule domI)
    with keep have "lists_at s' l = lists_at s l" by (rule bspec)
    with l have here: "lists_at s' l = Some refs" by simp
    have lv: "list_value s' l = list_value s l"
      using it by (rule list_value_frame) (simp add: here l)
    have "list_value s' (next_ref s) = Some []"
      by (simp add: list_value_def s'_def)
    then have res: "list_value s' (next_ref s) = Some (top_n_by_value (map snd ps) n)"
      using True by (simp add: top_n_by_value_def)
    show ?thesis
      apply (intro exI conjI)
            apply (rule run)
           apply (rule it)
          apply (rule keep)
         apply (rule here)
        apply (rule lv)
       apply (rule nf(1))
      apply (rule res)
      done
  next
    case False
    define sorted_ps where "sorted_ps = py_sorted (\<lambda>p. item_value (snd p)) True ps"
    define s1 where "s1 = fst (new_list s (map fst sorted_ps))"
    define s2 where "s2 = fst (new_list s1 (slice_upto (map fst sorted_ps) n))"
    have s1: "sorted_st s l = Some (s1, next_ref s)"
      by (simp add: sorted_st_def l ps s1_def sorted_ps_def prod_eq_iff)
    have s1_list: "lists_at s1 (next_ref s) = Some (map fst sorted_ps)"
      by (simp add: s1_def)
    have s2: "slice_upto_st s1 (next_ref s) n = Some (s2, Suc (next_ref s))"
      by (simp add: slice_upto_st_def s1_list s2_def prod_eq_iff) (simp add: s1_def)
    have run: "top_n_by_value_st s l n = Some (s2, Suc (next_ref s))"
      using False by (simp add: top_n_by_value_st_def s1 s2)
    have it: "items_at s2 = items_at s" by (simp add: s2_def s1_def)
    have lists2: "lists_at s2 = (lists_at s)(next_ref s \<mapsto> map fst sorted_ps,
                     Suc (next_ref s) \<mapsto> slice_upto (map fst sorted_ps) n)"
      by (simp add: s2_def s1_def)
    have keep: "\<forall>r \<in> dom (lists_at s). lists_at s2 r = lists_at s r"
      using nf by (auto simp add: lists2)
    have "l \<in> dom (lists_at s)" using l by (rule domI)
    with keep have "lists_at s2 l = lists_at s l" by (rule bspec)
    with l have here: "lists_at s2 l = Some refs" by simp
    have lv: "list_value s2 l = list_value s l"
      using it by (rule list_value_frame) (simp add: here l)
    have sub: "\<forall>p \<in> set (slice_upto sorted_ps n). items_at s2 (fst p) = Some (snd p)"
    proof
      fix p
      assume p: "p \<in> set (slice_upto sorted_ps n)"
      have "p \<in> set sorted_ps"
        using set_slice_upto [of sorted_ps n] p by (rule subsetD)
      then have "p \<in> set ps" by (simp add: sorted_ps_def set_py_sorted)
      then have "items_at s (fst p) = Some (snd p)" by (rule loaded)
      then show "items_at s2 (fst p) = Some (snd p)" by (simp add: it)
    qed
    have "lists_at s2 (Suc (next_ref s)) = Some (map fst (slice_upto sorted_ps n))"
      by (simp add: lists2 slice_upto_map)
    then have "list_value s2 (Suc (next_ref s)) = Some (map snd (slice_upto sorted_ps n))"
      using sub by (rule list_value_loaded)
    moreover have "map snd (slice_upto sorted_ps n) = top_n_by_value (map snd ps) n"
      using False
      by (simp add: top_n_as_slice slice_upto_map [symmetric] sorted_ps_def map_py_sorted)
    ultimately have res: "list_value s2 (Suc (next_ref s)) = Some (top_n_by_value (map snd ps) n)"
      by simp
    show ?thesis
      apply (intro exI conjI)
            apply (rule run)
           apply (rule it)
          apply (rule keep)
         apply (rule here)
        apply (rule lv)
       apply (rule nf(2))
      apply (rule res)
      done
  qed
qed

theorem top_n_leaves_input_unchanged_witness:
  "lists_at tie_store 4 = Some [0, 1, 2, 3] \<and>
   load_items tie_store [0, 1, 2, 3] = Some (zip [0, 1, 2, 3] tie_items) \<and>
   dom (lists_at tie_store) = {4} \<and> next_ref tie_store = 5 \<and>
   (\<exists>s' res. top_n_by_value_st tie_store 4 2 = Some (s', res) \<and>
      items_at s' = items_at tie_store \<and>
      lists_at s' 4 = Some [0, 1, 2, 3] \<and>
      list_value s' 4 = Some tie_items \<and>
      list_value s' res =
        Some [\<lparr>item_id = 2, item_name = ''b'', item_value = Fin 2\<rparr>,
              \<lparr>item_id = 3, item_name = ''c'', item_value = Fin 2\<rparr>])"
proof -
  have h1: "lists_at tie_store 4 = Some [0, 1, 2, 3]"
    by (simp add: tie_store_def)
  have h2: "load_items tie_store [0, 1, 2, 3] = Some (zip [0, 1, 2, 3] tie_items)"
    by (simp add: tie_store_def tie_items_def)
  have h3: "\<forall>r \<in> dom (lists_at tie_store). r < next_ref tie_store"
    by (simp add: tie_store_def)
  have before: "list_value tie_store 4 = Some tie_items"
    using h2 by (simp add: list_value_def h1 tie_items_def)
  have top: "top_n_by_value (map snd (zip [0, 1, 2, 3 :: nat] tie_items)) 2 =
      [\<lparr>item_id = 2, item_name = ''b'', item_value = Fin 2\<rparr>,
       \<lparr>item_id = 3, item_name = ''c'', item_value = Fin 2\<rparr>]"
    by (simp add: tie_items_def top_n_by_value_def py_sorted_def sort_ascending_def
        slice_upto_def)
  note inst = top_n_leaves_input_unchanged [OF h1 h2 h3, of 2, unfolded before top]
  from inst have
    "\<exists>s' res. top_n_by_value_st tie_store 4 2 = Some (s', res) \<and>
      items_at s' = items_at tie_store \<and>
      lists_at s' 4 = Some [0, 1, 2, 3] \<and>
      list_value s' 4 = Some tie_items \<and>
      list_value s' res =
        Some [\<lparr>item_id = 2, item_name = ''b'', item_value = Fin 2\<rparr>,
              \<lparr>item_id = 3, item_name = ''c'', item_value = Fin 2\<rparr>]"
    by (elim exE conjE, intro exI conjI) assumption+
  moreover have "dom (lists_at tie_store) = {4}" "next_ref tie_store = 5"
    by (simp_all add: tie_store_def)
  ultimately show ?thesis using h1 h2 by (intro conjI)
qed




end
